theory Spec2Isabelle
  imports Main "HOL-Library.Word" "HOL-Library.Multiset"
begin

section \<open>The filesystem handle's operations (btrfs.go)\<close>

text \<open>
  Go's \<open>uint64\<close> is \<open>64 word\<close>. A Go function returning \<open>(T, error)\<close> returns a
  pair whose second component is \<open>None\<close> for \<open>nil\<close>. A run-time panic (an index or
  slice bound out of range) is not a returned error: it is the left summand of the
  outcome. The kernel behind \<open>ioctl.Do\<close> is a parameter: a function from the kernel
  state and the request structure to the error, the structure as the kernel left it
  and the new kernel state.
\<close>

type_synonym uint64 = "64 word"

datatype panic = IndexOutOfRange | SliceBoundsOutOfRange

subsection \<open>Device statistics\<close>

record DevStats =
  WriteErrs :: uint64
  ReadErrs :: uint64
  FlushErrs :: uint64
  CorruptionErrs :: uint64
  GenerationErrs :: uint64
  Unknown :: "uint64 list"

text \<open>
  \<open>btrfs_ioctl_get_dev_stats\<close>: its declaration is not among the sources; the fields
  are the ones \<open>GetDevStatsWithFlags\<close> uses. \<open>values\<close> is a Go array of
  \<open>_BTRFS_DEV_STAT_VALUES_MAX\<close> elements: the list's length is the array's capacity.
\<close>

record btrfs_ioctl_get_dev_stats =
  devid :: uint64
  nr_items :: uint64
  flags :: uint64
  "values" :: "uint64 list"

text \<open>The zero value of \<open>DevStats\<close> (the named result \<open>out\<close> before any assignment).\<close>

definition DevStats_zero :: DevStats where
  "DevStats_zero =
     \<lparr>WriteErrs = 0, ReadErrs = 0, FlushErrs = 0, CorruptionErrs = 0,
      GenerationErrs = 0, Unknown = []\<rparr>"

text \<open>\<open>a[i]\<close> on an array: a run-time panic when \<open>i\<close> is not below the length.\<close>

definition index_array :: "'a list \<Rightarrow> nat \<Rightarrow> panic + 'a" where
  "index_array a i = (if i < length a then Inr (a ! i) else Inl IndexOutOfRange)"

text \<open>
  \<open>a[lo:hi]\<close> on an array: in range when \<open>lo \<le> hi \<le> len(a)\<close>, a run-time panic
  otherwise.
\<close>

definition slice_array :: "'a list \<Rightarrow> nat \<Rightarrow> nat \<Rightarrow> panic + 'a list" where
  "slice_array a lo hi =
     (if lo \<le> hi \<and> hi \<le> length a then Inr (take (hi - lo) (drop lo a))
      else Inl SliceBoundsOutOfRange)"

text \<open>
  The conversion \<open>int(arg.nr_items)\<close>: on the 64-bit platforms \<open>int\<close> has 64 bits and
  the conversion reinterprets the bits as two's complement.
\<close>

definition int_of_uint64 :: "uint64 \<Rightarrow> int" where
  "int_of_uint64 x = sint x"

text \<open>
  The part of \<open>GetDevStatsWithFlags\<close> after a successful \<open>ioctl.Do\<close>: the five
  indexed reads with the counter \<open>i\<close> going from 0 to 5, then the guarded slice.
\<close>

definition stats_of_reply :: "btrfs_ioctl_get_dev_stats \<Rightarrow> panic + DevStats" where
  "stats_of_reply arg =
     (case index_array (values arg) 0 of Inl p \<Rightarrow> Inl p | Inr w \<Rightarrow>
     (case index_array (values arg) 1 of Inl p \<Rightarrow> Inl p | Inr r \<Rightarrow>
     (case index_array (values arg) 2 of Inl p \<Rightarrow> Inl p | Inr f \<Rightarrow>
     (case index_array (values arg) 3 of Inl p \<Rightarrow> Inl p | Inr c \<Rightarrow>
     (case index_array (values arg) 4 of Inl p \<Rightarrow> Inl p | Inr g \<Rightarrow>
        (let out = \<lparr>WriteErrs = w, ReadErrs = r, FlushErrs = f, CorruptionErrs = c,
                    GenerationErrs = g, Unknown = []\<rparr>
         in if int_of_uint64 (nr_items arg) > 5
            then (case slice_array (values arg) 5 (unat (nr_items arg)) of
                    Inl p \<Rightarrow> Inl p
                  | Inr u \<Rightarrow> Inr (out\<lparr>Unknown := u\<rparr>))
            else Inr out))))))"

text \<open>
  \<open>FS.GetDevStatsWithFlags\<close>. \<open>VALUES_MAX\<close> stands for the constant
  \<open>_BTRFS_DEV_STAT_VALUES_MAX\<close>, \<open>Do\<close> for \<open>ioctl.Do\<close> with the request
  \<open>_BTRFS_IOC_GET_DEV_STATS\<close>, \<open>f\<close> for the kernel state behind the handle.
\<close>

definition GetDevStatsWithFlags ::
  "nat \<Rightarrow> ('k \<Rightarrow> btrfs_ioctl_get_dev_stats \<Rightarrow> 'e option \<times> btrfs_ioctl_get_dev_stats \<times> 'k) \<Rightarrow>
   'k \<Rightarrow> uint64 \<Rightarrow> uint64 \<Rightarrow> (panic + DevStats \<times> 'e option) \<times> 'k" where
  "GetDevStatsWithFlags VALUES_MAX Do f dev fl =
     (let arg = \<lparr>devid = dev, nr_items = of_nat VALUES_MAX, flags = fl,
                 values = replicate VALUES_MAX 0\<rparr>
      in case Do f arg of
           (Some err, arg', f') \<Rightarrow> (Inr (DevStats_zero, Some err), f')
         | (None, arg', f') \<Rightarrow>
             (case stats_of_reply arg' of
                Inl p \<Rightarrow> (Inl p, f')
              | Inr out \<Rightarrow> (Inr (out, None), f')))"

definition GetDevStats ::
  "nat \<Rightarrow> ('k \<Rightarrow> btrfs_ioctl_get_dev_stats \<Rightarrow> 'e option \<times> btrfs_ioctl_get_dev_stats \<times> 'k) \<Rightarrow>
   'k \<Rightarrow> uint64 \<Rightarrow> (panic + DevStats \<times> 'e option) \<times> 'k" where
  "GetDevStats VALUES_MAX Do f dev = GetDevStatsWithFlags VALUES_MAX Do f dev 0"

subsection \<open>Scrub cancellation\<close>

text \<open>
  \<open>FS.ScrubCancel\<close>. \<open>iocScrubCancel\<close> is not among the sources: it is a parameter, a
  function of the kernel state behind the handle alone, as its only argument is \<open>f.f\<close>.
\<close>

definition ScrubCancel :: "('k \<Rightarrow> 'e option \<times> 'k) \<Rightarrow> 'k \<Rightarrow> uint64 \<Rightarrow> 'e option \<times> 'k" where
  "ScrubCancel iocScrubCancel f dev = iocScrubCancel f"

text \<open>
  The loop of \<open>ScrubCancelCmd\<close> (gbtrfs.go):
  \<^verbatim>\<open>for i := uint64(1); i <= info.MaxID; i++ { if err := fs.ScrubCancel(i); err != nil { return err } }\<close>
  The counter is a \<open>uint64\<close>: with \<open>MaxID = 2^64 - 1\<close> the condition never fails,
  so the loop is a partial function and not returning is \<open>None\<close>.
\<close>

partial_function (option) ScrubCancelCmd_loop ::
  "('k \<Rightarrow> 'e option \<times> 'k) \<Rightarrow> uint64 \<Rightarrow> uint64 \<Rightarrow> 'k \<Rightarrow> ('e option \<times> 'k) option" where
  "ScrubCancelCmd_loop iocScrubCancel MaxID i f =
     (if i \<le> MaxID
      then (case ScrubCancel iocScrubCancel f i of
              (Some err, f') \<Rightarrow> Some (Some err, f')
            | (None, f') \<Rightarrow> ScrubCancelCmd_loop iocScrubCancel MaxID (i + 1) f')
      else Some (None, f))"

text \<open>
  What the loop amounts to if every call is the same filesystem-wide request: the
  request repeated \<open>n\<close> times, stopping at the first error.
\<close>

fun cancel_times :: "('k \<Rightarrow> 'e option \<times> 'k) \<Rightarrow> nat \<Rightarrow> 'k \<Rightarrow> 'e option \<times> 'k" where
  "cancel_times iocScrubCancel 0 f = (None, f)"
| "cancel_times iocScrubCancel (Suc n) f =
     (case iocScrubCancel f of
        (Some err, f') \<Rightarrow> (Some err, f')
      | (None, f') \<Rightarrow> cancel_times iocScrubCancel n f')"

subsection \<open>Subvolume queries\<close>

text \<open>
  \<open>SubvolInfo\<close>: its declaration is not among the sources. The record holds the
  subvolume id; every statement below is over the record scheme, so it holds for
  whichever further fields the declaration has.
\<close>

record SubvolInfo =
  RootID :: uint64

text \<open>
  \<open>FS.ListSubvolumes\<close>. \<open>listSubVolumes\<close> is not among the sources: it is a parameter, a
  function of the kernel state behind the handle and of the filter (which may be
  \<open>nil\<close>) that returns a Go map from subvolume id to \<open>SubvolInfo\<close>, and an error.
  \<open>for _, v := range m\<close> visits every entry of the map once, in an order the language
  leaves unspecified: \<open>ks\<close> is the order in which the run visits the keys.
\<close>

definition range_order :: "('a \<rightharpoonup> 'b) \<Rightarrow> 'a list \<Rightarrow> bool" where
  "range_order m ks \<longleftrightarrow> distinct ks \<and> set ks = dom m"

definition ListSubvolumes ::
  "('k \<Rightarrow> ('a SubvolInfo_scheme \<Rightarrow> bool) option \<Rightarrow> (uint64 \<rightharpoonup> 'a SubvolInfo_scheme) \<times> 'e option) \<Rightarrow>
   'k \<Rightarrow> ('a SubvolInfo_scheme \<Rightarrow> bool) option \<Rightarrow> uint64 list \<Rightarrow>
   'a SubvolInfo_scheme list option \<times> 'e option" where
  "ListSubvolumes listSubVolumes f filt ks =
     (case listSubVolumes f filt of
        (m, Some err) \<Rightarrow> (None, Some err)
      | (m, None) \<Rightarrow> (Some (List.map_filter m ks), None))"

text \<open>
  The calls a query issues to its collaborators, in order. \<open>lookupUUIDSubvolItem\<close>,
  \<open>lookupUUIDReceivedSubvolItem\<close> and \<open>subvolSearchByRootID\<close> are not among the
  sources: they are parameters, functions of the kernel state behind the handle and
  of their arguments, and the model records each call made to them.
\<close>

datatype 'u call =
    LookupUUIDSubvolItem 'u
  | LookupUUIDReceivedSubvolItem 'u
  | SubvolSearchByRootID uint64 string

definition SubvolumeByUUID ::
  "('k \<Rightarrow> 'u \<Rightarrow> uint64 \<times> 'e option) \<Rightarrow> ('k \<Rightarrow> uint64 \<Rightarrow> string \<Rightarrow> 'i option \<times> 'e option) \<Rightarrow>
   'k \<Rightarrow> 'u \<Rightarrow> ('i option \<times> 'e option) \<times> 'u call list" where
  "SubvolumeByUUID lookupUUIDSubvolItem subvolSearchByRootID f uuid =
     (case lookupUUIDSubvolItem f uuid of
        (rid, Some err) \<Rightarrow> ((None, Some err), [LookupUUIDSubvolItem uuid])
      | (rid, None) \<Rightarrow>
          (subvolSearchByRootID f rid '''',
           [LookupUUIDSubvolItem uuid, SubvolSearchByRootID rid '''']))"

definition SubvolumeByReceivedUUID ::
  "('k \<Rightarrow> 'u \<Rightarrow> uint64 \<times> 'e option) \<Rightarrow> ('k \<Rightarrow> uint64 \<Rightarrow> string \<Rightarrow> 'i option \<times> 'e option) \<Rightarrow>
   'k \<Rightarrow> 'u \<Rightarrow> ('i option \<times> 'e option) \<times> 'u call list" where
  "SubvolumeByReceivedUUID lookupUUIDReceivedSubvolItem subvolSearchByRootID f uuid =
     (case lookupUUIDReceivedSubvolItem f uuid of
        (rid, Some err) \<Rightarrow> ((None, Some err), [LookupUUIDReceivedSubvolItem uuid])
      | (rid, None) \<Rightarrow>
          (subvolSearchByRootID f rid '''',
           [LookupUUIDReceivedSubvolItem uuid, SubvolSearchByRootID rid '''']))"

section \<open>The metadata tree search and subvolume-resolution engine\<close>

text \<open>
  The cursor protocol, the record decoder, the hierarchy builder and the resolver of
  the specification (sections 3, 4 and 7) are not among the sources: the definitions
  of this section are modelled from the specification's words.
\<close>

subsection \<open>Keys and raw items\<close>

text \<open>
  Modelled from the spec: the key triple \<open>(object_id, item_type, offset)\<close> of section
  3. The cursor code and its types are missing from the sources. The object id and the
  offset are 64-bit (subvolume ids are \<open>uint64\<close> in the sources, and the object-id
  space coincides with the subvolume-id space), the item type is one byte.
\<close>

type_synonym byte = "8 word"
type_synonym triple = "uint64 \<times> byte \<times> uint64"


text \<open>
  Modelled from the spec: \<open>RawItem\<close>, "its originating SearchKey triple, a
  transaction_id, and an opaque byte payload".
\<close>

record RawItem =
  item_key :: triple
  transaction_id :: uint64
  payload :: "byte list"




subsection \<open>Error taxonomy\<close>

text \<open>
  Modelled from the spec: the error taxonomy of section 7; \<open>Corrupt\<close> carries the
  offending key. \<open>OutOfBoundsRead\<close> is not an error of the taxonomy: it is the crash of
  a read past the end of a payload, which the decoder must never reach.
\<close>

datatype error = Retryable | NotFound | Corrupt triple | Unresolvable | Fatal | OutOfBoundsRead

subsection \<open>Cursor protocol\<close>








text \<open>
  Modelled from the spec: the replies of the collaborator (sections 4.1 and 6): the
  items, "interrupted" (a signal received mid-call) and "invalid starting key".
\<close>

datatype reply = Items "RawItem list" | Interrupted | InvalidStartingKey




















subsection \<open>Record decoder\<close>

text \<open>Modelled from the spec: \<open>RootRecord\<close> of section 3.\<close>

record RootRecord =
  subvolume_id :: uint64
  generation :: uint64
  parent_root_id :: uint64
  root_flags :: uint64
  byte_usage :: "uint64 list"

text \<open>Modelled from the spec: \<open>BackrefRecord\<close> of section 3; the name is raw bytes.\<close>

record BackrefRecord =
  child_id :: uint64
  parent_id :: uint64
  dir_inode :: uint64
  name :: "byte list"
  sequence :: uint64

text \<open>Modelled from the spec: \<open>UUIDRecord\<close> of section 3, a 16-byte UUID and a subvolume id.\<close>

record UUIDRecord =
  uuid_value :: "byte list"
  uuid_subvolume_id :: uint64

text \<open>
  Modelled from the spec: the result of \<open>decode\<close>, "one of {RootRecord, BackrefRecord,
  UUIDRecord, Unrecognized}".
\<close>

datatype decoded =
    Root RootRecord
  | Backref BackrefRecord
  | UUID UUIDRecord
  | Unrecognized

text \<open>Modelled from the spec: the three known kinds of item.\<close>

datatype kind = RootKind | BackrefKind | UUIDKind

text \<open>
  Modelled from the spec: the external binary format. The spec says the layout is
  fixed-offset with a minimum size per item type, and gives neither the type tags nor
  the sizes nor the offsets: they are the parameters of the decoder. The name of a
  backreference is length-prefixed: a 16-bit length in the fixed part, the bytes after
  the fixed part.
\<close>

record layout =
  root_type :: byte
  backref_type :: byte
  uuid_type :: byte
  root_min_size :: nat
  backref_min_size :: nat
  uuid_min_size :: nat
  generation_off :: nat
  parent_root_off :: nat
  root_flags_off :: nat
  byte_usage_offs :: "nat list"
  backref_parent_off :: nat
  dir_inode_off :: nat
  sequence_off :: nat
  name_len_off :: nat
  uuid_off :: nat
  uuid_id_off :: nat

text \<open>
  Modelled from the spec: a layout whose fixed fields lie within the minimum size of
  their item type ("always validate against each record's minimum size before reading
  a field").
\<close>

definition layout_ok :: "layout \<Rightarrow> bool" where
  "layout_ok L \<longleftrightarrow>
     generation_off L + 8 \<le> root_min_size L \<and>
     parent_root_off L + 8 \<le> root_min_size L \<and>
     root_flags_off L + 8 \<le> root_min_size L \<and>
     list_all (\<lambda>off. off + 8 \<le> root_min_size L) (byte_usage_offs L) \<and>
     backref_parent_off L + 8 \<le> backref_min_size L \<and>
     dir_inode_off L + 8 \<le> backref_min_size L \<and>
     sequence_off L + 8 \<le> backref_min_size L \<and>
     name_len_off L + 2 \<le> backref_min_size L \<and>
     uuid_off L + 16 \<le> uuid_min_size L \<and>
     uuid_id_off L + 8 \<le> uuid_min_size L"

text \<open>Modelled from the spec: "dispatches purely on the item's declared type tag".\<close>

definition kind_of :: "layout \<Rightarrow> byte \<Rightarrow> kind option" where
  "kind_of L ty =
     (if ty = root_type L then Some RootKind
      else if ty = backref_type L then Some BackrefKind
      else if ty = uuid_type L then Some UUIDKind
      else None)"

text \<open>Modelled from the spec: "the minimum required size for its declared type".\<close>

fun min_size :: "layout \<Rightarrow> kind \<Rightarrow> nat" where
  "min_size L RootKind = root_min_size L"
| "min_size L BackrefKind = backref_min_size L"
| "min_size L UUIDKind = uuid_min_size L"

text \<open>
  Modelled from the spec: a read of \<open>n\<close> bytes at an offset of the payload. A read past
  the end is the crash the spec forbids, not a value.
\<close>

definition read_bytes :: "byte list \<Rightarrow> nat \<Rightarrow> nat \<Rightarrow> error + byte list" where
  "read_bytes p off n =
     (if off + n \<le> length p then Inr (take n (drop off p)) else Inl OutOfBoundsRead)"

text \<open>
  Modelled from the spec: "numeric fields are fixed-width, fixed-endianness": the
  value of a little-endian byte string.
\<close>

definition le_word :: "byte list \<Rightarrow> 'a::len word" where
  "le_word bs = foldr (\<lambda>b w. ucast b + 256 * w) bs 0"

text \<open>Modelled from the spec: sequencing of steps that can fail; the first failure is the result.\<close>

definition and_then :: "error + 'a \<Rightarrow> ('a \<Rightarrow> error + 'b) \<Rightarrow> error + 'b" where
  "and_then r f = (case r of Inl e \<Rightarrow> Inl e | Inr x \<Rightarrow> f x)"

text \<open>Modelled from the spec: a 64-bit numeric field.\<close>

definition read_u64 :: "byte list \<Rightarrow> nat \<Rightarrow> error + uint64" where
  "read_u64 p off = and_then (read_bytes p off 8) (\<lambda>bs. Inr (le_word bs))"

text \<open>Modelled from the spec: a 16-bit numeric field (the length prefix of a name).\<close>

definition read_u16 :: "byte list \<Rightarrow> nat \<Rightarrow> error + 16 word" where
  "read_u16 p off = and_then (read_bytes p off 2) (\<lambda>bs. Inr (le_word bs))"

text \<open>Modelled from the spec: the byte usage counters, one 64-bit field per offset.\<close>

fun read_u64s :: "byte list \<Rightarrow> nat list \<Rightarrow> error + uint64 list" where
  "read_u64s p [] = Inr []"
| "read_u64s p (off # offs) =
     and_then (read_u64 p off) (\<lambda>v. and_then (read_u64s p offs) (\<lambda>vs. Inr (v # vs)))"

text \<open>
  Modelled from the spec: the fields of a root descriptor; the subvolume id is the
  object id of the item.
\<close>

definition decode_root :: "layout \<Rightarrow> RawItem \<Rightarrow> error + decoded" where
  "decode_root L it =
     and_then (read_u64 (payload it) (generation_off L)) (\<lambda>g.
     and_then (read_u64 (payload it) (parent_root_off L)) (\<lambda>pr.
     and_then (read_u64 (payload it) (root_flags_off L)) (\<lambda>fl.
     and_then (read_u64s (payload it) (byte_usage_offs L)) (\<lambda>us.
       Inr (Root \<lparr>subvolume_id = fst (item_key it), generation = g, parent_root_id = pr,
                  root_flags = fl, byte_usage = us\<rparr>)))))"

text \<open>
  Modelled from the spec: the fields of a parent backreference; the child is the
  object id of the item ("a RootRecord and its BackrefRecord(s) share the same object
  id"). A name longer than the bytes that follow the fixed part is a corrupt record.
\<close>

definition decode_backref :: "layout \<Rightarrow> RawItem \<Rightarrow> error + decoded" where
  "decode_backref L it =
     and_then (read_u64 (payload it) (backref_parent_off L)) (\<lambda>par.
     and_then (read_u64 (payload it) (dir_inode_off L)) (\<lambda>ino.
     and_then (read_u64 (payload it) (sequence_off L)) (\<lambda>sq.
     and_then (read_u16 (payload it) (name_len_off L)) (\<lambda>len.
       if length (payload it) < backref_min_size L + unat len
       then Inl (Corrupt (item_key it))
       else and_then (read_bytes (payload it) (backref_min_size L) (unat len)) (\<lambda>nm.
         Inr (Backref \<lparr>child_id = fst (item_key it), parent_id = par, dir_inode = ino,
                        name = nm, sequence = sq\<rparr>))))))"

text \<open>Modelled from the spec: the fields of a UUID item.\<close>

definition decode_uuid :: "layout \<Rightarrow> RawItem \<Rightarrow> error + decoded" where
  "decode_uuid L it =
     and_then (read_bytes (payload it) (uuid_off L) 16) (\<lambda>u.
     and_then (read_u64 (payload it) (uuid_id_off L)) (\<lambda>i.
       Inr (UUID \<lparr>uuid_value = u, uuid_subvolume_id = i\<rparr>)))"

text \<open>
  Modelled from the spec: \<open>decode(RawItem)\<close> of section 4.2. An item type that is not
  one of the three known kinds is \<open>Unrecognized\<close>, not an error; "a payload shorter
  than the minimum required size for its declared type is a decode failure [...]
  surfaced as a corrupt-record error carrying the offending key"; bytes beyond the
  known fields are ignored.
\<close>

definition decode :: "layout \<Rightarrow> RawItem \<Rightarrow> error + decoded" where
  "decode L it =
     (case kind_of L (fst (snd (item_key it))) of
        None \<Rightarrow> Inr Unrecognized
      | Some k \<Rightarrow>
          if length (payload it) < min_size L k then Inl (Corrupt (item_key it))
          else (case k of
                  RootKind \<Rightarrow> decode_root L it
                | BackrefKind \<Rightarrow> decode_backref L it
                | UUIDKind \<Rightarrow> decode_uuid L it))"

subsection \<open>Hierarchy builder\<close>

text \<open>
  Modelled from the spec: the accumulator of section 4.3, "the latest RootRecord seen
  for that id, and the list of BackrefRecords seen for that id".
\<close>

record PartialSubvolume =
  root :: "RootRecord option"
  backrefs :: "BackrefRecord list"

text \<open>
  Modelled from the spec: the "mapping from subvolume id to an accumulator", as an
  association list with one entry per id, in the order in which the ids were first seen.
\<close>

type_synonym hierarchy = "(uint64 \<times> PartialSubvolume) list"

text \<open>Modelled from the spec: the accumulator of an id of which nothing was seen yet.\<close>

definition PartialSubvolume_empty :: PartialSubvolume where
  "PartialSubvolume_empty = \<lparr>root = None, backrefs = []\<rparr>"

text \<open>Modelled from the spec: change the accumulator of an id, creating it when the id is new.\<close>

fun upsert :: "uint64 \<Rightarrow> (PartialSubvolume \<Rightarrow> PartialSubvolume) \<Rightarrow> hierarchy \<Rightarrow> hierarchy" where
  "upsert i f [] = [(i, f PartialSubvolume_empty)]"
| "upsert i f ((j, p) # h) = (if i = j then (j, f p) # h else (j, p) # upsert i f h)"

text \<open>Modelled from the spec: the subvolume a decoded record is folded into, if any.\<close>

fun record_id :: "decoded \<Rightarrow> uint64 option" where
  "record_id (Root r) = Some (subvolume_id r)"
| "record_id (Backref b) = Some (child_id b)"
| "record_id (UUID u) = None"
| "record_id Unrecognized = None"

text \<open>
  Modelled from the spec: folding one record: the latest root record replaces the
  previous one, every backreference is retained ("last-seen-wins is NOT the policy"),
  an unrecognized item is skipped. The accumulator has no place for a UUID record: it
  leaves the mapping as it is.
\<close>

fun add_record :: "hierarchy \<Rightarrow> decoded \<Rightarrow> hierarchy" where
  "add_record h (Root r) = upsert (subvolume_id r) (\<lambda>p. p\<lparr>root := Some r\<rparr>) h"
| "add_record h (Backref b) = upsert (child_id b) (\<lambda>p. p\<lparr>backrefs := backrefs p @ [b]\<rparr>) h"
| "add_record h (UUID u) = h"
| "add_record h Unrecognized = h"

text \<open>
  Modelled from the spec: the fold of section 4.3 over the items of the cursor passes.
  The scope ("all roots", "subtree under id X" or "single id") is the set of the
  subvolume ids the caller wants, as a predicate; a record of an id outside it is not
  folded. A corrupt record aborts the build with its error (section 7).
\<close>

fun build_from :: "layout \<Rightarrow> (uint64 \<Rightarrow> bool) \<Rightarrow> hierarchy \<Rightarrow> RawItem list \<Rightarrow> error + hierarchy" where
  "build_from L scope h [] = Inr h"
| "build_from L scope h (it # its) =
     (case decode L it of
        Inl e \<Rightarrow> Inl e
      | Inr d \<Rightarrow>
          build_from L scope
            (case record_id d of
               None \<Rightarrow> h
             | Some i \<Rightarrow> if scope i then add_record h d else h) its)"

text \<open>
  Modelled from the spec: \<open>build(sequence of RawItem, scope)\<close>; "the mapping is built
  fresh per call".
\<close>

definition build :: "layout \<Rightarrow> RawItem list \<Rightarrow> (uint64 \<Rightarrow> bool) \<Rightarrow> error + hierarchy" where
  "build L items scope = build_from L scope [] items"



subsection \<open>Resolver\<close>

text \<open>
  Modelled from the spec: the well-known top-level id. The spec's scenario names it:
  "hierarchy {5: top-level (no backref), 256: parent=5 name="data"}".
\<close>

definition TOP_LEVEL_ID :: uint64 where
  "TOP_LEVEL_ID = 5"

text \<open>Modelled from the spec: the tuple \<open>(parent id, directory inode, sequence number)\<close> of the tie-break.\<close>

definition backref_tuple :: "BackrefRecord \<Rightarrow> uint64 \<times> uint64 \<times> uint64" where
  "backref_tuple b = (parent_id b, dir_inode b, sequence b)"

text \<open>Modelled from the spec: "lowest tuple": the lexicographic order of the tuples.\<close>

fun tuple_less :: "uint64 \<times> uint64 \<times> uint64 \<Rightarrow> uint64 \<times> uint64 \<times> uint64 \<Rightarrow> bool" where
  "tuple_less (p1, i1, s1) (p2, i2, s2) \<longleftrightarrow>
     p1 < p2 \<or> (p1 = p2 \<and> (i1 < i2 \<or> (i1 = i2 \<and> s1 < s2)))"

text \<open>Modelled from the spec: the same order, reflexive.\<close>

definition tuple_le :: "uint64 \<times> uint64 \<times> uint64 \<Rightarrow> uint64 \<times> uint64 \<times> uint64 \<Rightarrow> bool" where
  "tuple_le a b \<longleftrightarrow> a = b \<or> tuple_less a b"

text \<open>
  Modelled from the spec: the tie-break of section 4.4: "the resolver selects the
  backref with the lowest (parent id, directory inode, sequence number) tuple".
\<close>

fun pick_backref :: "BackrefRecord list \<Rightarrow> BackrefRecord option" where
  "pick_backref [] = None"
| "pick_backref (b # bs) =
     (case pick_backref bs of
        None \<Rightarrow> Some b
      | Some c \<Rightarrow> if tuple_le (backref_tuple b) (backref_tuple c) then Some b else Some c)"

text \<open>
  Modelled from the spec: the walk of \<open>resolvePath\<close>: from an id along the parent links,
  "prepending each hop's name". The id the walk stands at is looked up in the mapping
  first: the walk ends "in Unresolvable if a parent id is missing from the hierarchy
  mapping (broken chain)". It ends successfully at the top-level id, and in
  \<open>Unresolvable\<close> when the id has no backreference to follow or the hop counter is
  used up. The second component counts the hops taken.
\<close>

fun walk ::
  "hierarchy \<Rightarrow> nat \<Rightarrow> uint64 \<Rightarrow> byte list list \<Rightarrow> nat \<Rightarrow> (error + byte list list) \<times> nat" where
  "walk h 0 i acc hops =
     (case map_of h i of
        None \<Rightarrow> (Inl Unresolvable, hops)
      | Some p \<Rightarrow>
          if i = TOP_LEVEL_ID then (Inr acc, hops) else (Inl Unresolvable, hops))"
| "walk h (Suc counter) i acc hops =
     (case map_of h i of
        None \<Rightarrow> (Inl Unresolvable, hops)
      | Some p \<Rightarrow>
          if i = TOP_LEVEL_ID then (Inr acc, hops)
          else (case pick_backref (backrefs p) of
                  None \<Rightarrow> (Inl Unresolvable, hops)
                | Some b \<Rightarrow> walk h counter (parent_id b) (name b # acc) (Suc hops)))"

text \<open>Modelled from the spec: the "/-joined path" of the names, as bytes (\<open>/\<close> is 0x2F).\<close>

fun join_path :: "byte list list \<Rightarrow> byte list" where
  "join_path [] = []"
| "join_path [n] = n"
| "join_path (n # ns) = n @ 0x2F # join_path ns"

text \<open>
  Modelled from the spec: \<open>resolvePath(id) \<rightarrow> string | Unresolvable\<close>; "cycle detection
  uses a bounded hop counter equal to the number of known subvolumes plus one".
\<close>

definition resolvePath :: "hierarchy \<Rightarrow> uint64 \<Rightarrow> error + byte list" where
  "resolvePath h i =
     (case fst (walk h (length h + 1) i [] 0) of
        Inl e \<Rightarrow> Inl e
      | Inr names \<Rightarrow> Inr (join_path names))"

text \<open>Modelled from the spec: the number of parent hops \<open>resolvePath\<close> takes.\<close>

definition resolvePath_hops :: "hierarchy \<Rightarrow> uint64 \<Rightarrow> nat" where
  "resolvePath_hops h i = snd (walk h (length h + 1) i [] 0)"

text \<open>
  Modelled from the spec: the parent link of an id in a hierarchy mapping: the parent
  of the backreference the tie-break selects.
\<close>

definition parent_of :: "hierarchy \<Rightarrow> uint64 \<Rightarrow> uint64 option" where
  "parent_of h i =
     (case map_of h i of
        None \<Rightarrow> None
      | Some p \<Rightarrow> map_option parent_id (pick_backref (backrefs p)))"

text \<open>
  Modelled from the spec: the id the walk stands at after \<open>n\<close> parent hops from an id,
  if the links exist. The walk follows no link out of the top-level id ("which has no
  backref").
\<close>

fun ancestor :: "hierarchy \<Rightarrow> nat \<Rightarrow> uint64 \<Rightarrow> uint64 option" where
  "ancestor h 0 i = Some i"
| "ancestor h (Suc n) i =
     (if i = TOP_LEVEL_ID then None
      else (case parent_of h i of None \<Rightarrow> None | Some p \<Rightarrow> ancestor h n p))"


subsection \<open>Concrete data for the examples\<close>

text \<open>
  A layout: root descriptors of at least 32 bytes (generation, parent root id, flags
  and one usage counter), backreferences with a fixed part of 26 bytes (parent id,
  directory inode, sequence number and the 16-bit length of the name), UUID items of
  at least 24 bytes (the UUID and the subvolume id).
\<close>

definition example_layout :: layout where
  "example_layout =
     \<lparr>root_type = 132, backref_type = 144, uuid_type = 251,
      root_min_size = 32, backref_min_size = 26, uuid_min_size = 24,
      generation_off = 0, parent_root_off = 8, root_flags_off = 16, byte_usage_offs = [24],
      backref_parent_off = 0, dir_inode_off = 8, sequence_off = 16, name_len_off = 24,
      uuid_off = 0, uuid_id_off = 16\<rparr>"

text \<open>A root descriptor item of subvolume \<open>i\<close> with a payload of \<open>n\<close> zero bytes.\<close>

definition root_item :: "uint64 \<Rightarrow> nat \<Rightarrow> RawItem" where
  "root_item i n = \<lparr>item_key = (i, 132, 0), transaction_id = 1, payload = replicate n 0\<rparr>"





text \<open>A backreference of subvolume \<open>c\<close> with the tuple \<open>(p, i, s)\<close> and the name \<open>n\<close>.\<close>

definition backref :: "uint64 \<Rightarrow> uint64 \<Rightarrow> uint64 \<Rightarrow> uint64 \<Rightarrow> byte list \<Rightarrow> BackrefRecord" where
  "backref c p i s n = \<lparr>child_id = c, parent_id = p, dir_inode = i, name = n, sequence = s\<rparr>"


section \<open>Properties of the filesystem handle's operations\<close>

subsection \<open>Device statistics\<close>

lemma sint_le_uint: "sint (w :: 'a::len word) \<le> uint w"
proof -
  have "- (2 ^ (LENGTH('a) - Suc 0)) \<le> (0::int)" by simp
  also have "0 \<le> uint w" by simp
  finally show ?thesis
    unfolding sint_uint signed_take_bit_int_less_eq_self_iff .
qed

lemma int_of_uint64_gt_5: "5 < int_of_uint64 x \<Longrightarrow> 5 \<le> unat x"
proof -
  assume h: "5 < int_of_uint64 x"
  have "sint x \<le> uint x" by (rule sint_le_uint)
  moreover have "uint x = int (unat x)" by simp
  ultimately show ?thesis using h unfolding int_of_uint64_def by linarith
qed

lemma stats_of_reply_cases:
  assumes "5 \<le> length (values reply)"
  shows "stats_of_reply reply =
     (if int_of_uint64 (nr_items reply) \<le> 5
      then Inr \<lparr>WriteErrs = values reply ! 0, ReadErrs = values reply ! 1,
                FlushErrs = values reply ! 2, CorruptionErrs = values reply ! 3,
                GenerationErrs = values reply ! 4, Unknown = []\<rparr>
      else if unat (nr_items reply) \<le> length (values reply)
      then Inr \<lparr>WriteErrs = values reply ! 0, ReadErrs = values reply ! 1,
                FlushErrs = values reply ! 2, CorruptionErrs = values reply ! 3,
                GenerationErrs = values reply ! 4,
                Unknown = take (unat (nr_items reply) - 5) (drop 5 (values reply))\<rparr>
      else Inl SliceBoundsOutOfRange)"
  using assms int_of_uint64_gt_5 [of "nr_items reply"]
  by (auto simp add: stats_of_reply_def index_array_def slice_array_def Let_def)

lemma stats_of_reply_short:
  "length (values reply) < 5 \<Longrightarrow> stats_of_reply reply = Inl IndexOutOfRange"
  by (auto simp add: stats_of_reply_def index_array_def split: sum.splits)

text \<open>
  C9. For every device id, \<open>FS.GetDevStats(id)\<close> returns exactly what
  \<open>FS.GetDevStatsWithFlags(id, 0)\<close> returns: the same statistics, the same error (or
  the same panic), and it leaves the kernel in the same state.
\<close>

theorem GetDevStats_is_WithFlags_zero:
  "GetDevStats VALUES_MAX Do f dev = GetDevStatsWithFlags VALUES_MAX Do f dev 0"
  by (simp add: GetDevStats_def)

text \<open>
  C10, as amended. After a successful reply whose array holds at least the five
  named counters, \<open>WriteErrs\<close>, \<open>ReadErrs\<close>, \<open>FlushErrs\<close>, \<open>CorruptionErrs\<close> and
  \<open>GenerationErrs\<close> are \<open>values[0]\<close> to \<open>values[4]\<close> in this order. The guard
  compares \<open>int(nr_items)\<close>, the reported count read as a signed 64-bit value: when
  that is at most 5 (a reported count of \<open>2^63\<close> or more reads as negative),
  \<open>Unknown\<close> is empty and no slice is taken; when it exceeds 5 and the reported
  count is within the array's capacity, \<open>Unknown\<close> is \<open>values[5:nr_items]\<close>; when it
  exceeds 5 and the reported count exceeds the capacity, the slice expression is out
  of range and the call panics.
\<close>

theorem GetDevStatsWithFlags_reply:
  assumes "Do f \<lparr>devid = dev, nr_items = of_nat VALUES_MAX, flags = fl,
                  values = replicate VALUES_MAX 0\<rparr> = (None, reply, f')"
    and "5 \<le> length (values reply)"
  shows "GetDevStatsWithFlags VALUES_MAX Do f dev fl =
     (if int_of_uint64 (nr_items reply) \<le> 5
      then (Inr (\<lparr>WriteErrs = values reply ! 0, ReadErrs = values reply ! 1,
                  FlushErrs = values reply ! 2, CorruptionErrs = values reply ! 3,
                  GenerationErrs = values reply ! 4, Unknown = []\<rparr>, None), f')
      else if unat (nr_items reply) \<le> length (values reply)
      then (Inr (\<lparr>WriteErrs = values reply ! 0, ReadErrs = values reply ! 1,
                  FlushErrs = values reply ! 2, CorruptionErrs = values reply ! 3,
                  GenerationErrs = values reply ! 4,
                  Unknown = take (unat (nr_items reply) - 5) (drop 5 (values reply))\<rparr>,
                 None), f')
      else (Inl SliceBoundsOutOfRange, f'))"
  using assms(1) stats_of_reply_cases [OF assms(2)]
  by (simp add: GetDevStatsWithFlags_def)

text \<open>
  A kernel that reports seven counters in an array of seven: the five named counters
  and \<open>Unknown = values[5:7]\<close>. A kernel that reports six counters in an array of
  five: the slice \<open>values[5:6]\<close> is out of range and the call panics.
\<close>

theorem GetDevStatsWithFlags_reply_witness:
  "GetDevStatsWithFlags 7
     (\<lambda>(f::unit) arg. (None :: unit option, arg\<lparr>values := [10, 11, 12, 13, 14, 15, 16]\<rparr>, f))
     () 1 0 =
   (Inr (\<lparr>WriteErrs = 10, ReadErrs = 11, FlushErrs = 12, CorruptionErrs = 13,
          GenerationErrs = 14, Unknown = [15, 16]\<rparr>, None), ()) \<and>
   GetDevStatsWithFlags 5
     (\<lambda>(f::unit) arg. (None :: unit option, arg\<lparr>nr_items := 6, values := [10, 11, 12, 13, 14]\<rparr>, f))
     () 1 0 = (Inl SliceBoundsOutOfRange, ())"
  using GetDevStatsWithFlags_reply
    [of "\<lambda>(f::unit) arg. (None :: unit option, arg\<lparr>values := [10, 11, 12, 13, 14, 15, 16]\<rparr>, f)"
        "()" 1 7 0
        "\<lparr>devid = 1, nr_items = 7, flags = 0, values = [10, 11, 12, 13, 14, 15, 16]\<rparr>" "()"]
    GetDevStatsWithFlags_reply
    [of "\<lambda>(f::unit) arg. (None :: unit option, arg\<lparr>nr_items := 6, values := [10, 11, 12, 13, 14]\<rparr>, f)"
        "()" 1 5 0
        "\<lparr>devid = 1, nr_items = 6, flags = 0, values = [10, 11, 12, 13, 14]\<rparr>" "()"]
  by (simp add: int_of_uint64_def)

text \<open>
  C10 as stated fails. The reply reports \<open>nr_items = 2^63\<close> in an array of capacity 5:
  the reported count exceeds 5 and exceeds the capacity, yet \<open>int(nr_items)\<close> is
  negative, the guard is false, no slice is taken, the call returns without a panic
  and \<open>Unknown\<close> is empty.
\<close>

theorem GetDevStatsWithFlags_counterexample:
  "5 < unat (0x8000000000000000 :: uint64) \<and>
   length [1, 2, 3, 4, 5 :: uint64] < unat (0x8000000000000000 :: uint64) \<and>
   GetDevStatsWithFlags 5
     (\<lambda>(f::unit) arg.
        (None :: unit option, arg\<lparr>nr_items := 0x8000000000000000, values := [1, 2, 3, 4, 5]\<rparr>, f))
     () 1 0 =
   (Inr (\<lparr>WriteErrs = 1, ReadErrs = 2, FlushErrs = 3, CorruptionErrs = 4,
          GenerationErrs = 5, Unknown = []\<rparr>, None), ())"
  by (simp add: GetDevStatsWithFlags_def stats_of_reply_def index_array_def
      int_of_uint64_def)

subsection \<open>Scrub cancellation\<close>

lemma unat_Suc_below: "(MaxID :: uint64) \<noteq> - 1 \<Longrightarrow> i \<le> MaxID \<Longrightarrow> unat (i + 1) = unat i + 1"
  by (metis inc_less_eq_triv_imp nle_le unat_plus_simple unsigned_1 word_order.extremum)

lemma ScrubCancelCmd_loop_from:
  assumes "MaxID \<noteq> - 1" "unat MaxID + 1 - unat i = n" "unat i \<le> unat MaxID + 1"
  shows "ScrubCancelCmd_loop ioc MaxID i f = Some (cancel_times ioc n f)"
  using assms
proof (induction n arbitrary: i f)
  case 0
  then have "\<not> i \<le> MaxID" by (simp add: word_le_nat_alt)
  then show ?case by (subst ScrubCancelCmd_loop.simps) simp
next
  case (Suc n)
  then have le: "i \<le> MaxID" by (simp add: word_le_nat_alt)
  have i1: "unat (i + 1) = unat i + 1"
    using Suc.prems(1) le by (rule unat_Suc_below)
  have "ScrubCancelCmd_loop ioc MaxID (i + 1) f' = Some (cancel_times ioc n f')" for f'
    using Suc.prems i1 by (intro Suc.IH) auto
  then show ?case using le
    by (subst ScrubCancelCmd_loop.simps)
      (simp add: ScrubCancel_def split: prod.splits option.splits)
qed

text \<open>
  C8. \<open>FS.ScrubCancel(d1)\<close> and \<open>FS.ScrubCancel(d2)\<close> are the same operation for
  every pair of device ids: the result and the kernel state after the call are those
  of the one request on the handle, whatever \<open>dev\<close> is. The command's loop calls
  \<open>ScrubCancel(i)\<close> for \<open>i\<close> from 1 to \<open>MaxID\<close>; for every \<open>MaxID\<close> below
  \<open>2^64 - 1\<close> it returns, and what it does is that one request issued \<open>MaxID\<close>
  times, stopping at the first error.
\<close>

theorem ScrubCancel_ignores_dev:
  "ScrubCancel iocScrubCancel f d1 = ScrubCancel iocScrubCancel f d2 \<and>
   ScrubCancel iocScrubCancel f d1 = iocScrubCancel f \<and>
   (MaxID \<noteq> - 1 \<longrightarrow>
      ScrubCancelCmd_loop iocScrubCancel MaxID 1 f =
        Some (cancel_times iocScrubCancel (unat MaxID) f))"
proof -
  have "ScrubCancelCmd_loop iocScrubCancel MaxID 1 f =
          Some (cancel_times iocScrubCancel (unat MaxID) f)" if "MaxID \<noteq> - 1"
    using that by (intro ScrubCancelCmd_loop_from) auto
  then show ?thesis by (simp add: ScrubCancel_def)
qed

text \<open>
  Two devices, a kernel state that counts the cancel requests it has received: the
  loop leaves the count at 2, and the request for device 1 is the request for device 2.
\<close>

theorem ScrubCancel_ignores_dev_witness:
  "(2 :: uint64) \<noteq> - 1 \<and>
   ScrubCancel (\<lambda>k::nat. (None :: unit option, Suc k)) 0 1 =
     ScrubCancel (\<lambda>k::nat. (None :: unit option, Suc k)) 0 2 \<and>
   ScrubCancelCmd_loop (\<lambda>k::nat. (None :: unit option, Suc k)) 2 1 0 = Some (None, 2)"
proof -
  have n: "(2 :: uint64) \<noteq> - 1" by simp
  have u: "unat (2 :: uint64) = Suc (Suc 0)" by simp
  have c: "cancel_times (\<lambda>k::nat. (None :: unit option, Suc k)) (unat (2 :: uint64)) 0 = (None, 2)"
    unfolding u by simp
  show ?thesis
    using n ScrubCancel_ignores_dev [of "\<lambda>k::nat. (None :: unit option, Suc k)" 0 1 2 2]
    unfolding c by simp
qed

subsection \<open>Subvolume queries\<close>

text \<open>
  C3. \<open>FS.SubvolumeByUUID\<close> first makes the keyed lookup of the UUID. When the lookup
  fails, its error is returned unchanged with no \<open>SubvolInfo\<close>, and the lookup is the
  only call issued: no search by root id. When it succeeds with an id, the result is
  that of \<open>subvolSearchByRootID\<close> on this id and the empty path, called after the
  lookup. \<open>FS.SubvolumeByReceivedUUID\<close> does the same with the lookup in the
  received-UUID namespace.
\<close>

theorem SubvolumeByUUID_lookup_first:
  "(lookupUUIDSubvolItem f u = (rid, Some err) \<longrightarrow>
      SubvolumeByUUID lookupUUIDSubvolItem subvolSearchByRootID f u =
        ((None, Some err), [LookupUUIDSubvolItem u])) \<and>
   (lookupUUIDSubvolItem f u = (rid, None) \<longrightarrow>
      SubvolumeByUUID lookupUUIDSubvolItem subvolSearchByRootID f u =
        (subvolSearchByRootID f rid '''',
         [LookupUUIDSubvolItem u, SubvolSearchByRootID rid ''''])) \<and>
   (lookupUUIDReceivedSubvolItem f u = (rid', Some err') \<longrightarrow>
      SubvolumeByReceivedUUID lookupUUIDReceivedSubvolItem subvolSearchByRootID f u =
        ((None, Some err'), [LookupUUIDReceivedSubvolItem u])) \<and>
   (lookupUUIDReceivedSubvolItem f u = (rid', None) \<longrightarrow>
      SubvolumeByReceivedUUID lookupUUIDReceivedSubvolItem subvolSearchByRootID f u =
        (subvolSearchByRootID f rid' '''',
         [LookupUUIDReceivedSubvolItem u, SubvolSearchByRootID rid' '''']))"
  by (simp add: SubvolumeByUUID_def SubvolumeByReceivedUUID_def)

text \<open>
  A UUID tree that knows UUID 7 as subvolume 256 and nothing else, with error 2 for
  an absent UUID; a received-UUID tree that knows UUID 9 as subvolume 257.
\<close>

theorem SubvolumeByUUID_lookup_first_witness:
  "SubvolumeByUUID (\<lambda>(f::unit) u::nat. if u = 7 then (256, None) else (0, Some (2::nat)))
     (\<lambda>f i p. (Some (i, p), None)) () 8 = ((None, Some 2), [LookupUUIDSubvolItem 8]) \<and>
   SubvolumeByUUID (\<lambda>(f::unit) u::nat. if u = 7 then (256, None) else (0, Some (2::nat)))
     (\<lambda>f i p. (Some (i, p), None)) () 7 =
     ((Some (256, ''''), None), [LookupUUIDSubvolItem 7, SubvolSearchByRootID 256 '''']) \<and>
   SubvolumeByReceivedUUID (\<lambda>(f::unit) u::nat. if u = 9 then (257, None) else (0, Some (2::nat)))
     (\<lambda>f i p. (Some (i, p), None)) () 8 = ((None, Some 2), [LookupUUIDReceivedSubvolItem 8]) \<and>
   SubvolumeByReceivedUUID (\<lambda>(f::unit) u::nat. if u = 9 then (257, None) else (0, Some (2::nat)))
     (\<lambda>f i p. (Some (i, p), None)) () 9 =
     ((Some (257, ''''), None),
      [LookupUUIDReceivedSubvolItem 9, SubvolSearchByRootID 257 ''''])"
  using
    SubvolumeByUUID_lookup_first
      [where lookupUUIDSubvolItem = "\<lambda>(f::unit) u::nat. if u = 7 then (256, None) else (0, Some (2::nat))"
         and lookupUUIDReceivedSubvolItem = "\<lambda>(f::unit) u::nat. if u = 9 then (257, None) else (0, Some (2::nat))"
         and subvolSearchByRootID = "\<lambda>(f::unit) (i::uint64) (p::string). (Some (i, p), None :: nat option)"
         and f = "()" and u = 8 and rid = 0 and err = 2 and rid' = 0 and err' = 2]
    SubvolumeByUUID_lookup_first
      [where lookupUUIDSubvolItem = "\<lambda>(f::unit) u::nat. if u = 7 then (256, None) else (0, Some (2::nat))"
         and lookupUUIDReceivedSubvolItem = "\<lambda>(f::unit) u::nat. if u = 9 then (257, None) else (0, Some (2::nat))"
         and subvolSearchByRootID = "\<lambda>(f::unit) (i::uint64) (p::string). (Some (i, p), None :: nat option)"
         and f = "()" and u = 7 and rid = 256 and err = 2 and rid' = 0 and err' = 2]
    SubvolumeByUUID_lookup_first
      [where lookupUUIDSubvolItem = "\<lambda>(f::unit) u::nat. if u = 7 then (256, None) else (0, Some (2::nat))"
         and lookupUUIDReceivedSubvolItem = "\<lambda>(f::unit) u::nat. if u = 9 then (257, None) else (0, Some (2::nat))"
         and subvolSearchByRootID = "\<lambda>(f::unit) (i::uint64) (p::string). (Some (i, p), None :: nat option)"
         and f = "()" and u = 9 and rid = 0 and err = 2 and rid' = 257 and err' = 2]
  by simp

lemma map_filter_range:
  "set ks \<subseteq> dom m \<Longrightarrow> List.map_filter m ks = map (the \<circ> m) ks"
  by (induction ks) (auto simp: List.map_filter_simps)

text \<open>
  C1, as amended. When \<open>listSubVolumes\<close> fails, \<open>FS.ListSubvolumes\<close> returns its error
  and no list. Otherwise it returns the entries of the map that \<open>listSubVolumes\<close>
  built for the predicate, each entry once, in the order in which the \<open>range\<close> over
  the map visits them; it does not sort them, so the sequence is a permutation of the
  surviving entries and need not ascend by subvolume id.
\<close>

theorem ListSubvolumes_entries:
  "(listSubVolumes f filt = (m, Some err) \<longrightarrow>
      ListSubvolumes listSubVolumes f filt ks = (None, Some err)) \<and>
   (listSubVolumes f filt = (m, None) \<and> range_order m ks \<longrightarrow>
      ListSubvolumes listSubVolumes f filt ks = (Some (map (the \<circ> m) ks), None) \<and>
      mset (map (the \<circ> m) ks) = image_mset (the \<circ> m) (mset_set (dom m)))"
proof -
  have "mset ks = mset_set (dom m)" if "range_order m ks"
    using that by (metis range_order_def mset_set_set)
  then show ?thesis
    by (auto simp add: ListSubvolumes_def range_order_def map_filter_range)
qed

text \<open>
  A filesystem with the subvolumes 5 and 256, no filter, and a run whose \<open>range\<close>
  visits 256 first.
\<close>

theorem ListSubvolumes_entries_witness:
  "range_order [5 \<mapsto> \<lparr>RootID = 5\<rparr>, 256 \<mapsto> \<lparr>RootID = 256\<rparr>] [256, 5 :: uint64] \<and>
   ListSubvolumes
     (\<lambda>(f::unit) flt. ([5 \<mapsto> \<lparr>RootID = 5\<rparr>, 256 \<mapsto> \<lparr>RootID = 256\<rparr>], None :: unit option))
     () None [256, 5] = (Some [\<lparr>RootID = 256\<rparr>, \<lparr>RootID = 5\<rparr>], None)"
proof -
  have r: "range_order [5 \<mapsto> \<lparr>RootID = 5\<rparr>, 256 \<mapsto> \<lparr>RootID = 256\<rparr>] [256, 5 :: uint64]"
    by (auto simp add: range_order_def)
  have l: "(\<lambda>(f::unit) flt :: (SubvolInfo \<Rightarrow> bool) option.
        ([5 \<mapsto> \<lparr>RootID = 5\<rparr>, 256 \<mapsto> \<lparr>RootID = 256\<rparr>], None :: unit option)) () None =
      ([5 \<mapsto> \<lparr>RootID = 5\<rparr>, 256 \<mapsto> \<lparr>RootID = 256 :: uint64\<rparr>], None)"
    by simp
  show ?thesis
    using r l ListSubvolumes_entries
      [where listSubVolumes = "\<lambda>(f::unit) flt :: (SubvolInfo \<Rightarrow> bool) option.
            ([5 \<mapsto> \<lparr>RootID = 5\<rparr>, 256 \<mapsto> \<lparr>RootID = 256\<rparr>], None :: unit option)"
          and f = "()" and filt = None
          and m = "[5 \<mapsto> \<lparr>RootID = 5\<rparr>, 256 \<mapsto> \<lparr>RootID = 256\<rparr>]" and ks = "[256, 5]"]
    by simp
qed

text \<open>
  C1 as stated fails. The map holds the subvolumes 5 and 256 and the \<open>range\<close> visits
  256 first: the returned sequence has the ids 256, 5, which is not ascending.
\<close>

theorem ListSubvolumes_counterexample:
  "range_order [5 \<mapsto> \<lparr>RootID = 5\<rparr>, 256 \<mapsto> \<lparr>RootID = 256\<rparr>] [256, 5 :: uint64] \<and>
   fst (ListSubvolumes
     (\<lambda>(f::unit) flt. ([5 \<mapsto> \<lparr>RootID = 5\<rparr>, 256 \<mapsto> \<lparr>RootID = 256\<rparr>], None :: unit option))
     () None [256, 5]) = Some [\<lparr>RootID = 256\<rparr>, \<lparr>RootID = 5\<rparr>] \<and>
   \<not> sorted (map RootID [\<lparr>RootID = 256\<rparr>, \<lparr>RootID = 5\<rparr>])"
  by (auto simp add: range_order_def ListSubvolumes_def List.map_filter_simps)


section \<open>Properties of the metadata tree search and subvolume-resolution engine\<close>

subsection \<open>Cursor protocol\<close>


























subsection \<open>Hierarchy builder\<close>

lemma upsert_keys:
  "map fst (upsert i f h) = (if i \<in> fst ` set h then map fst h else map fst h @ [i])"
  by (induction h) force+

lemma add_record_distinct: "distinct (map fst h) \<Longrightarrow> distinct (map fst (add_record h d))"
  by (cases d) (auto simp: upsert_keys)

lemma build_from_distinct:
  "distinct (map fst h) \<Longrightarrow> build_from L scope h items = Inr h' \<Longrightarrow> distinct (map fst h')"
proof (induction items arbitrary: h)
  case Nil
  then show ?case by simp
next
  case (Cons it items)
  obtain d where d: "decode L it = Inr d"
    using Cons.prems(2) by (cases "decode L it") auto
  let ?h = "case record_id d of None \<Rightarrow> h | Some i \<Rightarrow> if scope i then add_record h d else h"
  have "distinct (map fst ?h)"
    using Cons.prems(1) add_record_distinct by (auto split: option.splits)
  moreover have "build_from L scope ?h items = Inr h'"
    using Cons.prems(2) d by simp
  ultimately show ?case by (rule Cons.IH)
qed

text \<open>
  A mapping that \<open>build\<close> returns has one entry per subvolume id: its length is the
  number of known subvolumes.
\<close>

lemma build_distinct: "build L items scope = Inr h \<Longrightarrow> distinct (map fst h)"
  unfolding build_def by (rule build_from_distinct [of "[]"]) simp_all






subsection \<open>Record decoder\<close>

lemma read_u64_ok: "off + 8 \<le> length p \<Longrightarrow> \<exists>v. read_u64 p off = Inr v"
  by (simp add: read_u64_def read_bytes_def and_then_def)

lemma read_u16_ok: "off + 2 \<le> length p \<Longrightarrow> \<exists>v. read_u16 p off = Inr v"
  by (simp add: read_u16_def read_bytes_def and_then_def)

lemma read_u64s_ok:
  "list_all (\<lambda>off. off + 8 \<le> length p) offs \<Longrightarrow> \<exists>vs. read_u64s p offs = Inr vs"
proof (induction offs)
  case Nil
  then show ?case by simp
next
  case (Cons off offs)
  then obtain v vs where "read_u64 p off = Inr v" "read_u64s p offs = Inr vs"
    using read_u64_ok [of off p] by auto
  then show ?case by (simp add: and_then_def)
qed

lemma decode_root_ok:
  assumes "layout_ok L" "root_min_size L \<le> length (payload it)"
  shows "\<exists>r. decode_root L it = Inr (Root r)"
proof -
  have offs: "list_all (\<lambda>off. off + 8 \<le> length (payload it)) (byte_usage_offs L)"
    using assms by (auto simp: layout_ok_def list_all_iff)
  obtain g pr fl us where
    "read_u64 (payload it) (generation_off L) = Inr g"
    "read_u64 (payload it) (parent_root_off L) = Inr pr"
    "read_u64 (payload it) (root_flags_off L) = Inr fl"
    "read_u64s (payload it) (byte_usage_offs L) = Inr us"
    using read_u64_ok [of "generation_off L" "payload it"]
      read_u64_ok [of "parent_root_off L" "payload it"]
      read_u64_ok [of "root_flags_off L" "payload it"]
      read_u64s_ok [OF offs] assms
    by (auto simp: layout_ok_def)
  then show ?thesis by (simp add: decode_root_def and_then_def)
qed

lemma decode_backref_ok:
  assumes "layout_ok L" "backref_min_size L \<le> length (payload it)"
  shows "decode_backref L it = Inl (Corrupt (item_key it)) \<or>
         (\<exists>b. decode_backref L it = Inr (Backref b))"
proof -
  obtain par ino sq len where
    "read_u64 (payload it) (backref_parent_off L) = Inr par"
    "read_u64 (payload it) (dir_inode_off L) = Inr ino"
    "read_u64 (payload it) (sequence_off L) = Inr sq"
    "read_u16 (payload it) (name_len_off L) = Inr len"
    using read_u64_ok [of "backref_parent_off L" "payload it"]
      read_u64_ok [of "dir_inode_off L" "payload it"]
      read_u64_ok [of "sequence_off L" "payload it"]
      read_u16_ok [of "name_len_off L" "payload it"] assms
    by (auto simp: layout_ok_def)
  then show ?thesis
    by (simp add: decode_backref_def and_then_def read_bytes_def)
qed

lemma decode_uuid_ok:
  assumes "layout_ok L" "uuid_min_size L \<le> length (payload it)"
  shows "\<exists>u. decode_uuid L it = Inr (UUID u)"
proof -
  obtain i where "read_u64 (payload it) (uuid_id_off L) = Inr i"
    using read_u64_ok [of "uuid_id_off L" "payload it"] assms by (auto simp: layout_ok_def)
  moreover have "uuid_off L + 16 \<le> length (payload it)"
    using assms by (simp add: layout_ok_def)
  ultimately show ?thesis by (simp add: decode_uuid_def and_then_def read_bytes_def)
qed

text \<open>
  With the fixed fields inside the minimum sizes, the length check of \<open>decode\<close> guards
  every read: no item, whatever its payload, makes the decoder read out of bounds.
\<close>

lemma decode_never_out_of_bounds:
  assumes "layout_ok L"
  shows "decode L it \<noteq> Inl OutOfBoundsRead"
proof (cases "kind_of L (fst (snd (item_key it)))")
  case None
  then show ?thesis by (simp add: decode_def)
next
  case (Some k)
  show ?thesis
  proof (cases "length (payload it) < min_size L k")
    case True
    then show ?thesis using Some by (simp add: decode_def)
  next
    case False
    then show ?thesis
      using Some decode_root_ok [OF assms, of it] decode_backref_ok [OF assms, of it]
        decode_uuid_ok [OF assms, of it]
      by (cases k) (auto simp: decode_def)
  qed
qed

text \<open>
  C5. For every raw item whose payload is shorter than the minimum size of its
  declared item type, by one byte or by more, \<open>decode\<close> returns the \<open>Corrupt\<close> error
  carrying the key of the item; it reads nothing of the payload, so it reads nothing
  out of bounds. And for a layout whose fixed fields lie within the minimum sizes, no
  item at all makes \<open>decode\<close> read out of bounds.
\<close>

theorem decode_short_payload:
  "(kind_of L (fst (snd (item_key it))) = Some k \<and> length (payload it) < min_size L k \<longrightarrow>
      decode L it = Inl (Corrupt (item_key it))) \<and>
   (kind_of L (fst (snd (item_key it))) = Some k \<and> Suc (length (payload it)) = min_size L k \<longrightarrow>
      decode L it = Inl (Corrupt (item_key it))) \<and>
   (layout_ok L \<longrightarrow> decode L it \<noteq> Inl OutOfBoundsRead)"
proof (intro conjI impI)
  assume "kind_of L (fst (snd (item_key it))) = Some k \<and> length (payload it) < min_size L k"
  then show "decode L it = Inl (Corrupt (item_key it))" by (simp add: decode_def)
next
  assume "kind_of L (fst (snd (item_key it))) = Some k \<and>
    Suc (length (payload it)) = min_size L k"
  then have "kind_of L (fst (snd (item_key it))) = Some k" "length (payload it) < min_size L k"
    by simp_all
  then show "decode L it = Inl (Corrupt (item_key it))" by (simp add: decode_def)
next
  assume "layout_ok L"
  then show "decode L it \<noteq> Inl OutOfBoundsRead" by (rule decode_never_out_of_bounds)
qed

text \<open>
  A root descriptor of 31 bytes where 32 are required: \<open>Corrupt\<close> with its key. With 32
  bytes it decodes.
\<close>

theorem decode_short_payload_witness:
  "layout_ok example_layout \<and>
   kind_of example_layout (fst (snd (item_key (root_item 256 31)))) = Some RootKind \<and>
   Suc (length (payload (root_item 256 31))) = min_size example_layout RootKind \<and>
   decode example_layout (root_item 256 31) = Inl (Corrupt (256, 132, 0)) \<and>
   decode example_layout (root_item 256 31) \<noteq> Inl OutOfBoundsRead \<and>
   decode example_layout (root_item 256 32) =
     Inr (Root \<lparr>subvolume_id = 256, generation = 0, parent_root_id = 0, root_flags = 0,
                byte_usage = [0]\<rparr>)"
proof -
  have ok: "layout_ok example_layout" by code_simp
  have kind: "kind_of example_layout (fst (snd (item_key (root_item 256 31)))) = Some RootKind"
    by code_simp
  have short: "Suc (length (payload (root_item 256 31))) = min_size example_layout RootKind"
    by code_simp
  have key: "item_key (root_item 256 31) = (256, 132, 0)" by code_simp
  have full: "decode example_layout (root_item 256 32) =
     Inr (Root \<lparr>subvolume_id = 256, generation = 0, parent_root_id = 0, root_flags = 0,
                byte_usage = [0]\<rparr>)" by code_simp
  show ?thesis
    using decode_short_payload [of example_layout "root_item 256 31" RootKind]
      ok kind short key full by simp
qed

subsection \<open>Resolver: the tie-break\<close>

lemma tuple_le_refl: "tuple_le a a"
  by (simp add: tuple_le_def)

lemma tuple_le_trans: "tuple_le a b \<Longrightarrow> tuple_le b c \<Longrightarrow> tuple_le a c"
  by (cases a; cases b; cases c) (auto simp: tuple_le_def)

lemma tuple_le_total: "tuple_le a b \<or> tuple_le b a"
  by (cases a; cases b) (auto simp: tuple_le_def)

lemma tuple_le_antisym: "tuple_le a b \<Longrightarrow> tuple_le b a \<Longrightarrow> a = b"
  by (cases a; cases b) (auto simp: tuple_le_def)

lemma pick_backref_Some: "bs \<noteq> [] \<Longrightarrow> \<exists>b. pick_backref bs = Some b"
  by (cases bs) (auto split: option.splits)

lemma pick_backref_in: "pick_backref bs = Some b \<Longrightarrow> b \<in> set bs"
  by (induction bs arbitrary: b) (auto split: option.splits if_splits)

lemma pick_backref_least:
  "pick_backref bs = Some b \<Longrightarrow> c \<in> set bs \<Longrightarrow> tuple_le (backref_tuple b) (backref_tuple c)"
proof (induction bs arbitrary: b c)
  case Nil
  then show ?case by simp
next
  case (Cons a bs)
  show ?case
  proof (cases "pick_backref bs")
    case None
    then have "bs = []" using pick_backref_Some by fastforce
    then show ?thesis using Cons.prems by (simp add: tuple_le_refl)
  next
    case (Some m)
    have m: "tuple_le (backref_tuple m) (backref_tuple x)" if "x \<in> set bs" for x
      using Cons.IH [OF Some that] .
    show ?thesis
    proof (cases "tuple_le (backref_tuple a) (backref_tuple m)")
      case True
      then have "b = a" using Cons.prems(1) Some by simp
      moreover have "tuple_le (backref_tuple a) (backref_tuple x)" if "x \<in> set bs" for x
        using True m [OF that] by (rule tuple_le_trans)
      ultimately show ?thesis using Cons.prems(2) by (auto simp: tuple_le_refl)
    next
      case False
      then have "b = m" using Cons.prems(1) Some by simp
      moreover have "tuple_le (backref_tuple m) (backref_tuple a)"
        using False tuple_le_total by blast
      ultimately show ?thesis using m Cons.prems(2) by auto
    qed
  qed
qed

text \<open>The tuple selected depends on which backreferences there are, not on their order.\<close>

lemma pick_backref_order_free:
  assumes "set bs = set cs"
  shows "map_option backref_tuple (pick_backref bs) = map_option backref_tuple (pick_backref cs)"
proof (cases "bs = []")
  case True
  then show ?thesis using assms by simp
next
  case False
  then have "cs \<noteq> []" using assms by auto
  then obtain b c where bc: "pick_backref bs = Some b" "pick_backref cs = Some c"
    using False pick_backref_Some by blast
  have "tuple_le (backref_tuple b) (backref_tuple c)"
    using pick_backref_least [OF bc(1)] pick_backref_in [OF bc(2)] assms by simp
  moreover have "tuple_le (backref_tuple c) (backref_tuple b)"
    using pick_backref_least [OF bc(2)] pick_backref_in [OF bc(1)] assms by simp
  ultimately show ?thesis using bc tuple_le_antisym by simp
qed

text \<open>
  C7. For every subvolume with more than one backreference (and with exactly one),
  the resolver selects one of its backreferences, and its tuple \<open>(parent id, directory
  inode, sequence number)\<close> is the lowest among them; the walk of \<open>resolvePath\<close> goes
  to the parent of the selected backreference and prepends its name. The selection is
  a function of the hierarchy, so repeated calls select the same backreference, and
  the tuple selected does not depend on the order in which the backreferences were
  seen.
\<close>

theorem pick_backref_lowest:
  "(1 < length bs \<longrightarrow>
      (\<exists>b. pick_backref bs = Some b \<and> b \<in> set bs \<and>
           (\<forall>c\<in>set bs. tuple_le (backref_tuple b) (backref_tuple c)))) \<and>
   (bs \<noteq> [] \<longrightarrow>
      (\<exists>b. pick_backref bs = Some b \<and> b \<in> set bs \<and>
           (\<forall>c\<in>set bs. tuple_le (backref_tuple b) (backref_tuple c)))) \<and>
   (set bs = set cs \<longrightarrow>
      map_option backref_tuple (pick_backref bs) = map_option backref_tuple (pick_backref cs)) \<and>
   (i \<noteq> TOP_LEVEL_ID \<and> map_of h i = Some p \<and> backrefs p = bs \<and> pick_backref bs = Some b' \<longrightarrow>
      parent_of h i = Some (parent_id b') \<and>
      walk h (Suc counter) i names hops =
        walk h counter (parent_id b') (name b' # names) (Suc hops))"
proof -
  have sel: "\<exists>b. pick_backref bs = Some b \<and> b \<in> set bs \<and>
           (\<forall>c\<in>set bs. tuple_le (backref_tuple b) (backref_tuple c))" if nonempty: "bs \<noteq> []"
  proof -
    obtain b where b: "pick_backref bs = Some b" using nonempty pick_backref_Some by blast
    moreover have "b \<in> set bs" using b by (rule pick_backref_in)
    moreover have "\<forall>c\<in>set bs. tuple_le (backref_tuple b) (backref_tuple c)"
      using pick_backref_least [OF b] by blast
    ultimately show ?thesis by blast
  qed
  have ne: "bs \<noteq> []" if "1 < length bs" using that by auto
  have step: "parent_of h i = Some (parent_id b') \<and>
      walk h (Suc counter) i names hops =
        walk h counter (parent_id b') (name b' # names) (Suc hops)"
    if "i \<noteq> TOP_LEVEL_ID \<and> map_of h i = Some p \<and> backrefs p = bs \<and> pick_backref bs = Some b'"
    using that by (simp add: parent_of_def)
  show ?thesis
  proof (intro conjI impI)
    assume "1 < length bs"
    then show "\<exists>b. pick_backref bs = Some b \<and> b \<in> set bs \<and>
           (\<forall>c\<in>set bs. tuple_le (backref_tuple b) (backref_tuple c))"
      using sel ne by blast
  next
    assume "bs \<noteq> []"
    then show "\<exists>b. pick_backref bs = Some b \<and> b \<in> set bs \<and>
           (\<forall>c\<in>set bs. tuple_le (backref_tuple b) (backref_tuple c))"
      by (rule sel)
  next
    assume "set bs = set cs"
    then show "map_option backref_tuple (pick_backref bs) =
        map_option backref_tuple (pick_backref cs)"
      by (rule pick_backref_order_free)
  next
    assume a: "i \<noteq> TOP_LEVEL_ID \<and> map_of h i = Some p \<and> backrefs p = bs \<and>
      pick_backref bs = Some b'"
    show "parent_of h i = Some (parent_id b')" using step [OF a] by (rule conjunct1)
    show "walk h (Suc counter) i names hops =
        walk h counter (parent_id b') (name b' # names) (Suc hops)"
      using step [OF a] by (rule conjunct2)
  qed
qed

text \<open>
  The spec's scenario: two backreferences of subvolume 300 with the tuples \<open>(5, 10, 1)\<close>
  and \<open>(5, 9, 2)\<close>: the second is selected, in either order.
\<close>

theorem pick_backref_lowest_witness:
  "1 < length [backref 300 5 10 1 [97], backref 300 5 9 2 [98]] \<and>
   pick_backref [backref 300 5 10 1 [97], backref 300 5 9 2 [98]] = Some (backref 300 5 9 2 [98]) \<and>
   pick_backref [backref 300 5 9 2 [98], backref 300 5 10 1 [97]] = Some (backref 300 5 9 2 [98]) \<and>
   tuple_le (backref_tuple (backref 300 5 9 2 [98])) (backref_tuple (backref 300 5 10 1 [97])) \<and>
   resolvePath [(5, PartialSubvolume_empty), (300, \<lparr>root = None,
       backrefs = [backref 300 5 10 1 [97], backref 300 5 9 2 [98]]\<rparr>)] 300 = Inr [98]"
proof -
  let ?bs = "[backref 300 5 10 1 [97], backref 300 5 9 2 [98]]"
  have len: "1 < length ?bs" by simp
  have p1: "pick_backref ?bs = Some (backref 300 5 9 2 [98])" by code_simp
  have p2: "pick_backref [backref 300 5 9 2 [98], backref 300 5 10 1 [97]] =
      Some (backref 300 5 9 2 [98])" by code_simp
  have r: "resolvePath [(5, PartialSubvolume_empty), (300, \<lparr>root = None, backrefs = ?bs\<rparr>)] 300 =
      Inr [98]" by code_simp
  have "\<forall>c\<in>set ?bs. tuple_le (backref_tuple (backref 300 5 9 2 [98])) (backref_tuple c)"
    using pick_backref_lowest [of ?bs] len p1 by simp
  then show ?thesis using len p1 p2 r by simp
qed

subsection \<open>Resolver: the walk to the top-level id\<close>

lemma walk_hops: "snd (walk h counter i acc hops) \<le> hops + counter"
proof (induction counter arbitrary: i acc hops)
  case 0
  then show ?case by (simp split: option.splits)
next
  case (Suc counter)
  have "snd (walk h counter j acc' (Suc hops)) \<le> Suc hops + counter" for j acc'
    by (rule Suc.IH)
  then show ?case by (auto split: option.splits simp: le_Suc_eq)
qed

lemma walk_error: "fst (walk h counter i acc hops) = Inl e \<Longrightarrow> e = Unresolvable"
  by (induction counter arbitrary: i acc hops) (auto split: option.splits if_splits)

text \<open>
  A walk that succeeds has reached the top-level id along the parent links, and has
  found it in the mapping.
\<close>

lemma walk_Inr_ancestor:
  "fst (walk h counter i acc hops) = Inr names \<Longrightarrow>
   \<exists>n\<le>counter. ancestor h n i = Some TOP_LEVEL_ID \<and> map_of h TOP_LEVEL_ID \<noteq> None \<and>
     snd (walk h counter i acc hops) = hops + n"
proof (induction counter arbitrary: i acc hops)
  case 0
  then have "i = TOP_LEVEL_ID \<and> map_of h i \<noteq> None" by (auto split: option.splits if_splits)
  then show ?case by auto
next
  case (Suc counter)
  obtain p where p: "map_of h i = Some p"
    using Suc.prems by (cases "map_of h i") auto
  show ?case
  proof (cases "i = TOP_LEVEL_ID")
    case True
    then have "ancestor h 0 i = Some TOP_LEVEL_ID \<and> map_of h TOP_LEVEL_ID \<noteq> None \<and>
        snd (walk h (Suc counter) i acc hops) = hops + 0"
      using p by simp
    then show ?thesis by blast
  next
    case False
    then obtain b where b: "pick_backref (backrefs p) = Some b"
      and rec: "walk h (Suc counter) i acc hops = walk h counter (parent_id b) (name b # acc) (Suc hops)"
      using Suc.prems p by (auto split: option.splits)
    then obtain n where n: "n \<le> counter" "ancestor h n (parent_id b) = Some TOP_LEVEL_ID"
      "map_of h TOP_LEVEL_ID \<noteq> None"
      "snd (walk h counter (parent_id b) (name b # acc) (Suc hops)) = Suc hops + n"
      using Suc.IH [of "parent_id b" "name b # acc" "Suc hops"] Suc.prems by auto
    have "ancestor h (Suc n) i = Some TOP_LEVEL_ID"
      using False p b n(2) by (simp add: parent_of_def)
    then have "Suc n \<le> Suc counter \<and> ancestor h (Suc n) i = Some TOP_LEVEL_ID \<and>
        map_of h TOP_LEVEL_ID \<noteq> None \<and> snd (walk h (Suc counter) i acc hops) = hops + Suc n"
      using n rec by simp
    then show ?thesis by blast
  qed
qed

lemma ancestor_add:
  "ancestor h (a + b) i = (case ancestor h a i of None \<Rightarrow> None | Some y \<Rightarrow> ancestor h b y)"
  by (induction a arbitrary: i) (auto split: option.splits)

text \<open>The walk goes no further than the top-level id.\<close>

lemma ancestor_top_stop:
  "ancestor h m i = Some TOP_LEVEL_ID \<Longrightarrow> ancestor h (m + Suc d) i = None"
  using ancestor_add [of h m "Suc d" i] by simp

text \<open>On a cycle the parent links only revisit the ids met before the cycle closes.\<close>

lemma ancestor_cycle:
  assumes x: "ancestor h n i = Some x" and k: "0 < k" "ancestor h k x = Some x"
  shows "\<exists>m'<n + k. ancestor h m i = ancestor h m' i"
proof (induction m rule: less_induct)
  case (less m)
  show ?case
  proof (cases "m < n + k")
    case True
    then show ?thesis by blast
  next
    case False
    then obtain d where d: "m = n + k + d" by (metis le_Suc_ex not_less)
    have "ancestor h m i = ancestor h (k + d) x"
      using x d ancestor_add [of h n "k + d" i] by (simp add: add.assoc)
    also have "\<dots> = ancestor h d x"
      using k(2) ancestor_add [of h k d x] by simp
    also have "\<dots> = ancestor h (n + d) i"
      using x ancestor_add [of h n d i] by simp
    finally have "ancestor h m i = ancestor h (n + d) i" .
    moreover have "n + d < m" using d k(1) by simp
    ultimately show ?thesis using less.IH [of "n + d"] by auto
  qed
qed

lemma resolvePath_never_top:
  assumes "\<And>n. ancestor h n i \<noteq> Some TOP_LEVEL_ID"
  shows "resolvePath h i = Inl Unresolvable"
proof (cases "fst (walk h (length h + 1) i [] 0)")
  case (Inl e)
  then show ?thesis using walk_error [OF Inl] by (simp add: resolvePath_def)
next
  case (Inr names)
  then show ?thesis using walk_Inr_ancestor [OF Inr] assms by blast
qed

text \<open>A walk that reaches an id missing from the mapping fails, whatever the id.\<close>

lemma walk_missing:
  "ancestor h n i = Some x \<Longrightarrow> map_of h x = None \<Longrightarrow>
   fst (walk h counter i acc hops) = Inl Unresolvable"
proof (induction n arbitrary: i counter acc hops)
  case 0
  then show ?case by (cases counter) auto
next
  case (Suc n)
  have nt: "i \<noteq> TOP_LEVEL_ID" using Suc.prems(1) by (auto split: if_splits)
  then obtain q where q: "parent_of h i = Some q" "ancestor h n q = Some x"
    using Suc.prems(1) by (auto split: option.splits)
  then obtain p b where pb: "map_of h i = Some p" "pick_backref (backrefs p) = Some b"
      "parent_id b = q"
    by (auto simp: parent_of_def split: option.splits)
  show ?case
  proof (cases counter)
    case 0
    then show ?thesis using nt pb by simp
  next
    case (Suc c)
    have "fst (walk h c q (name b # acc) (Suc hops)) = Inl Unresolvable"
      using q(2) Suc.prems(2) by (rule Suc.IH)
    then show ?thesis using Suc nt pb by simp
  qed
qed

lemma resolvePath_missing:
  assumes "ancestor h n i = Some x" "map_of h x = None"
  shows "resolvePath h i = Inl Unresolvable"
  using walk_missing [OF assms, of "length h + 1" "[]" 0] by (simp add: resolvePath_def)

lemma resolvePath_cycle:
  assumes x: "ancestor h n i = Some x" and k: "0 < k" "ancestor h k x = Some x"
  shows "resolvePath h i = Inl Unresolvable"
proof (rule resolvePath_never_top)
  fix m
  obtain m' where m': "m' < n + k" "ancestor h m i = ancestor h m' i"
    using ancestor_cycle [OF x k] by blast
  have closes: "ancestor h (n + k) i = Some x"
    using x k(2) ancestor_add [of h n k i] by simp
  have "ancestor h m' i \<noteq> Some TOP_LEVEL_ID"
  proof
    assume top: "ancestor h m' i = Some TOP_LEVEL_ID"
    obtain d where "n + k = m' + Suc d" using m'(1) by (metis less_imp_Suc_add add_Suc_right)
    then show False using ancestor_top_stop [OF top, of d] closes by simp
  qed
  then show "ancestor h m i \<noteq> Some TOP_LEVEL_ID" using m'(2) by simp
qed

text \<open>
  C6. For every hierarchy mapping, cyclic or not, \<open>resolvePath\<close> is a total function
  that takes at most (number of known subvolumes + 1) parent hops. It returns
  \<open>Unresolvable\<close> when the walk along the parent links reaches an id that is missing
  from the mapping (whatever the id, the top-level id included), when the walk runs
  into a cycle, and whenever the walk never reaches the top-level id; \<open>Unresolvable\<close>
  is the only error it returns.
\<close>

theorem resolvePath_terminates_bounded:
  "resolvePath_hops h i \<le> length h + 1 \<and>
   (ancestor h n i = Some x \<and> map_of h x = None \<longrightarrow> resolvePath h i = Inl Unresolvable) \<and>
   (ancestor h n i = Some x \<and> 0 < k \<and> ancestor h k x = Some x \<longrightarrow>
      resolvePath h i = Inl Unresolvable) \<and>
   ((\<forall>m. ancestor h m i \<noteq> Some TOP_LEVEL_ID) \<longrightarrow> resolvePath h i = Inl Unresolvable) \<and>
   (resolvePath h i = Inl e \<longrightarrow> e = Unresolvable)"
proof -
  have hops: "resolvePath_hops h i \<le> length h + 1"
    using walk_hops [of h "length h + 1" i "[]" 0] by (simp add: resolvePath_hops_def)
  have err: "e = Unresolvable" if "resolvePath h i = Inl e"
    using that walk_error [of h "length h + 1" i "[]" 0]
    by (auto simp: resolvePath_def split: sum.splits)
  show ?thesis
    using hops err resolvePath_missing [of h n i x] resolvePath_cycle [of h n i x k]
      resolvePath_never_top [of h i]
    by blast
qed

text \<open>
  A corrupted mapping in which 256 and 257 are each other's parent: from 256 the walk
  takes 3 hops, the number of known subvolumes plus one, and returns \<open>Unresolvable\<close>.
  A mapping in which the parent 300 of 256 is missing: \<open>Unresolvable\<close> after one hop.
  A mapping in which the parent of 256 is the top-level id and is missing:
  \<open>Unresolvable\<close> after one hop. And the spec's scenario, where 256 resolves to its name.
\<close>

theorem resolvePath_terminates_bounded_witness:
  "ancestor [(256, \<lparr>root = None, backrefs = [backref 256 257 1 1 [97]]\<rparr>),
             (257, \<lparr>root = None, backrefs = [backref 257 256 1 1 [98]]\<rparr>)] 2 256 = Some 256 \<and>
   resolvePath [(256, \<lparr>root = None, backrefs = [backref 256 257 1 1 [97]]\<rparr>),
                (257, \<lparr>root = None, backrefs = [backref 257 256 1 1 [98]]\<rparr>)] 256 =
     Inl Unresolvable \<and>
   resolvePath_hops [(256, \<lparr>root = None, backrefs = [backref 256 257 1 1 [97]]\<rparr>),
                     (257, \<lparr>root = None, backrefs = [backref 257 256 1 1 [98]]\<rparr>)] 256 = 3 \<and>
   resolvePath [(256, \<lparr>root = None, backrefs = [backref 256 300 1 1 [97]]\<rparr>)] 256 =
     Inl Unresolvable \<and>
   resolvePath_hops [(256, \<lparr>root = None, backrefs = [backref 256 300 1 1 [97]]\<rparr>)] 256 = 1 \<and>
   ancestor [(256, \<lparr>root = None, backrefs = [backref 256 5 1 1 [97]]\<rparr>)] 1 256 =
     Some TOP_LEVEL_ID \<and>
   resolvePath [(256, \<lparr>root = None, backrefs = [backref 256 5 1 1 [97]]\<rparr>)] 256 =
     Inl Unresolvable \<and>
   resolvePath_hops [(256, \<lparr>root = None, backrefs = [backref 256 5 1 1 [97]]\<rparr>)] 256 = 1 \<and>
   resolvePath [(5, PartialSubvolume_empty),
                (256, \<lparr>root = None, backrefs = [backref 256 5 1 1 [100, 97, 116, 97]]\<rparr>)] 256 =
     Inr [100, 97, 116, 97]"
proof -
  let ?cyc = "[(256 :: uint64, \<lparr>root = None, backrefs = [backref 256 257 1 1 [97]]\<rparr>),
               (257, \<lparr>root = None, backrefs = [backref 257 256 1 1 [98]]\<rparr>)]"
  let ?mis = "[(256 :: uint64, \<lparr>root = None, backrefs = [backref 256 300 1 1 [97]]\<rparr>)]"
  let ?top = "[(256 :: uint64, \<lparr>root = None, backrefs = [backref 256 5 1 1 [97]]\<rparr>)]"
  have a0: "ancestor ?cyc 0 256 = Some 256" by code_simp
  have a2: "ancestor ?cyc 2 256 = Some 256" by code_simp
  have "ancestor ?cyc 0 256 = Some 256 \<and> (0 :: nat) < 2 \<and> ancestor ?cyc 2 256 = Some 256"
    using a0 a2 by simp
  then have cyc: "resolvePath ?cyc 256 = Inl Unresolvable"
    using resolvePath_terminates_bounded [of ?cyc 256 0 256 2] by blast
  have hops: "resolvePath_hops ?cyc 256 = 3" by code_simp
  have m1: "ancestor ?mis 1 256 = Some 300" by code_simp
  have absent: "map_of ?mis 300 = None" by simp
  have mis: "resolvePath ?mis 256 = Inl Unresolvable"
    using resolvePath_terminates_bounded [of ?mis 256 1 300] m1 absent by blast
  have mhops: "resolvePath_hops ?mis 256 = 1" by code_simp
  have t1: "ancestor ?top 1 256 = Some TOP_LEVEL_ID" by code_simp
  have tabsent: "map_of ?top TOP_LEVEL_ID = None" by (simp add: TOP_LEVEL_ID_def)
  have top: "resolvePath ?top 256 = Inl Unresolvable"
    using resolvePath_terminates_bounded [of ?top 256 1 TOP_LEVEL_ID] t1 tabsent by blast
  have thops: "resolvePath_hops ?top 256 = 1" by code_simp
  have scen: "resolvePath [(5, PartialSubvolume_empty),
                (256, \<lparr>root = None, backrefs = [backref 256 5 1 1 [100, 97, 116, 97]]\<rparr>)] 256 =
     Inr [100, 97, 116, 97]" by code_simp
  show ?thesis using a2 cyc hops mis mhops t1 top thops scen by simp
qed

text \<open>
  The hop counter never cuts short a walk that reaches the top-level id: the walk
  visits each id of the mapping at most once, so it has at most as many hops as there
  are known subvolumes. \<open>resolvePath\<close> succeeds exactly when the walk reaches the
  top-level id and finds it in the mapping.
\<close>

lemma walk_reaches_top:
  "ancestor h n i = Some TOP_LEVEL_ID \<Longrightarrow> map_of h TOP_LEVEL_ID = Some t \<Longrightarrow> n \<le> counter \<Longrightarrow>
   \<exists>names. fst (walk h counter i acc hops) = Inr names"
proof (induction n arbitrary: i counter acc hops)
  case 0
  then show ?case by (cases counter) auto
next
  case (Suc n)
  have nt: "i \<noteq> TOP_LEVEL_ID" using Suc.prems(1) by (auto split: if_splits)
  obtain c where c: "counter = Suc c" "n \<le> c"
    using Suc.prems(3) by (cases counter) auto
  obtain q where q: "parent_of h i = Some q" "ancestor h n q = Some TOP_LEVEL_ID"
    using Suc.prems(1) nt by (auto split: option.splits)
  then obtain p b where pb: "map_of h i = Some p" "pick_backref (backrefs p) = Some b"
      "parent_id b = q"
    by (auto simp: parent_of_def split: option.splits)
  have "\<exists>names. fst (walk h c q (name b # acc) (Suc hops)) = Inr names"
    using q(2) Suc.prems(2) c(2) by (rule Suc.IH)
  then show ?case using nt c(1) pb by simp
qed

lemma shortest_chain_bounded:
  assumes top: "ancestor h n i = Some TOP_LEVEL_ID"
  shows "n \<le> length h"
proof -
  have least: "ancestor h m i \<noteq> Some TOP_LEVEL_ID" if mn: "m < n" for m
  proof
    assume t: "ancestor h m i = Some TOP_LEVEL_ID"
    obtain d where "n = m + Suc d" using mn by (metis less_imp_Suc_add add_Suc_right)
    then show False using ancestor_top_stop [OF t, of d] top by simp
  qed
  have defined: "\<exists>y. ancestor h m i = Some y \<and> ancestor h (n - m) y = Some TOP_LEVEL_ID"
    if "m \<le> n" for m
  proof -
    have "ancestor h (m + (n - m)) i = Some TOP_LEVEL_ID" using top that by simp
    then show ?thesis unfolding ancestor_add by (auto split: option.splits)
  qed
  define g where "g m = the (ancestor h m i)" for m
  have g: "ancestor h m i = Some (g m)" "ancestor h (n - m) (g m) = Some TOP_LEVEL_ID"
    if "m \<le> n" for m
    using defined [OF that] by (auto simp: g_def)
  have in_dom: "g m \<in> fst ` set h" if mn: "m < n" for m
  proof -
    obtain d where d: "n - m = Suc d" using mn by (cases "n - m") auto
    have "parent_of h (g m) \<noteq> None"
      using g(2) [of m] mn d by (auto split: option.splits if_splits)
    then have "map_of h (g m) \<noteq> None" by (auto simp: parent_of_def split: option.splits)
    then show ?thesis by (metis map_of_eq_None_iff)
  qed
  have inj: "inj_on g {..<n}"
  proof (rule inj_onI)
    fix a b assume ab: "a \<in> {..<n}" "b \<in> {..<n}" "g a = g b"
    show "a = b"
    proof (rule ccontr)
      assume ne: "a \<noteq> b"
      have cut: False if lt: "a' < b'" "b' < n" and eq: "g a' = g b'" for a' b'
      proof -
        have "ancestor h (a' + (n - b')) i = Some TOP_LEVEL_ID"
          unfolding ancestor_add using g(1) [of a'] g(2) [of b'] lt eq by simp
        moreover have "a' + (n - b') < n" using lt by simp
        ultimately show False using least by blast
      qed
      show False
      proof (cases "a < b")
        case True
        then show ?thesis using cut [of a b] ab by simp
      next
        case False
        then have "b < a" using ne by simp
        then show ?thesis using cut [of b a] ab by simp
      qed
    qed
  qed
  have "n = card (g ` {..<n})" using inj by (simp add: card_image)
  also have "\<dots> \<le> card (fst ` set h)"
    using in_dom by (intro card_mono) auto
  also have "\<dots> \<le> length h"
    by (metis card_image_le card_length le_trans List.finite_set)
  finally show ?thesis .
qed

lemma resolvePath_reaches_top:
  assumes "ancestor h n i = Some TOP_LEVEL_ID" "map_of h TOP_LEVEL_ID = Some t"
  shows "\<exists>path. resolvePath h i = Inr path"
proof -
  have "n \<le> length h + 1" using shortest_chain_bounded [OF assms(1)] by simp
  then obtain names where "fst (walk h (length h + 1) i [] 0) = Inr names"
    using walk_reaches_top [OF assms] by blast
  then show ?thesis by (simp add: resolvePath_def)
qed

end
